theory Spec2Isabelle
  imports Main "HOL-Library.Sublist"
begin

section \<open>Values, dictionaries and exceptions\<close>

text \<open>
  The ingestion pipeline of \<^verbatim>\<open>src/app/ingest.py\<close> works on Python dictionaries whose
  keys are strings and whose values come from the YAML front matter of a document.
  A value is modelled by \<open>pyval\<close>; a text is a list of characters, one \<open>char\<close> for each
  Python code point, and a Python list is a list of values.  Both are sequences:
  \<^verbatim>\<open>len\<close> and slicing work on them and raise \<^verbatim>\<open>TypeError\<close> on \<^verbatim>\<open>None\<close> and on numbers.
\<close>

datatype pyval = PNone | PInt int | PStr string | PList "pyval list"

type_synonym pydict = "string \<rightharpoonup> pyval"

text \<open>
  Exceptions are values.  \<open>ValueError\<close> is the one \<^verbatim>\<open>sliding_window\<close> raises for a
  non-positive size or step, \<open>TypeError\<close> the one \<^verbatim>\<open>len\<close> raises on a value that
  is no sequence, \<open>RuntimeError\<close> the aggregate error of \<^verbatim>\<open>read_repo_data\<close>, which
  formats the tuple of branches and the last caught exception into its message; the
  remaining ones stand for what the download, the archive and the front matter parser
  raise.
\<close>

datatype exn =
    ValueError
  | TypeError
  | RequestError string
  | BadZipFile
  | ParseError string
  | RuntimeError "string list" "exn option"

text \<open>
  \<^verbatim>\<open>seq[i : j]\<close> for \<open>0 \<le> i\<close>: the elements at the positions from \<open>i\<close> up to, and
  without, \<open>j\<close>, clipped at the end of the sequence.  Negative bounds, which Python counts
  from the end, never reach a slice of this program: every slice starts at a loop index
  of \<^verbatim>\<open>range(0, n, step)\<close>.
\<close>

definition slice :: "'a list \<Rightarrow> int \<Rightarrow> int \<Rightarrow> 'a list" where
  "slice xs i j = take (nat (j - i)) (drop (nat i) xs)"

text \<open>
  \<^verbatim>\<open>len\<close> and the slice of a value.  A value that is no sequence never reaches its
  slice: \<^verbatim>\<open>len\<close> has raised before.
\<close>

fun py_len :: "pyval \<Rightarrow> exn + int" where
  "py_len (PStr s) = Inr (int (length s))"
| "py_len (PList l) = Inr (int (length l))"
| "py_len v = Inl TypeError"

fun py_slice :: "pyval \<Rightarrow> int \<Rightarrow> int \<Rightarrow> pyval" where
  "py_slice (PStr s) i j = PStr (slice s i j)"
| "py_slice (PList l) i j = PList (slice l i j)"
| "py_slice v i j = v"

section \<open>The sliding window\<close>

text \<open>
  \<^verbatim>\<open>{"start": i, "content": batch}\<close>, the dictionary \<^verbatim>\<open>sliding_window\<close> appends for one
  window.
\<close>

definition mk_chunk :: "int \<Rightarrow> pyval \<Rightarrow> pydict" where
  "mk_chunk i batch = [''start'' \<mapsto> PInt i, ''content'' \<mapsto> batch]"

text \<open>
  The loop of \<^verbatim>\<open>sliding_window\<close>, from the index \<open>i\<close> on:
  \<^verbatim>\<open>
    for i in range(0, n, step):
        batch = text[i : i + size]
        out.append({"start": i, "content": batch})
        if i + size > n:
            break
  \<close>
  The range yields \<open>i\<close> while \<open>i < n\<close>; the loop is entered with \<open>0 < step\<close> only, and
  the recursion stops for any other step.
\<close>

function sw_loop :: "pyval \<Rightarrow> int \<Rightarrow> int \<Rightarrow> int \<Rightarrow> int \<Rightarrow> pydict list" where
  "sw_loop text n sz step i =
     (if 0 < step \<and> i < n
      then mk_chunk i (py_slice text i (i + sz)) #
             (if i + sz > n then [] else sw_loop text n sz step (i + step))
      else [])"
  by pat_completeness auto
termination
  by (relation "measure (\<lambda>(text, n, sz, step, i). nat (n - i))") auto

declare sw_loop.simps [simp del]

text \<open>
  \<^verbatim>\<open>sliding_window(text, size, step)\<close>: the check of the arguments comes first, then
  \<^verbatim>\<open>n = len(text)\<close>, then the loop from 0.
\<close>

definition sliding_window :: "pyval \<Rightarrow> int \<Rightarrow> int \<Rightarrow> exn + pydict list" where
  "sliding_window text sz step =
     (if sz \<le> 0 \<or> step \<le> 0 then Inl ValueError
      else case py_len text of
             Inl e \<Rightarrow> Inl e
           | Inr n \<Rightarrow> Inr (sw_loop text n sz step 0))"

section \<open>Chunking documents\<close>

text \<open>
  \<^verbatim>\<open>base.pop("content", "")\<close>: the value stored under the key, or the empty text when
  the key is missing, and the dictionary without the key.
\<close>

definition pop_content :: "pydict \<Rightarrow> pyval \<times> pydict" where
  "pop_content d =
     ((case d ''content'' of None \<Rightarrow> PStr [] | Some v \<Rightarrow> v), d(''content'' := None))"

text \<open>
  \<^verbatim>\<open>ch.update(base)\<close>: every key of \<open>base\<close> is written into \<open>ch\<close>, over the value
  \<open>ch\<close> had there.
\<close>

definition update :: "pydict \<Rightarrow> pydict \<Rightarrow> pydict" where
  "update ch base = ch ++ base"

text \<open>
  \<^verbatim>\<open>chunk_documents(docs, size, step)\<close> on the values of the dictionaries.  An exception
  of \<^verbatim>\<open>sliding_window\<close> leaves the function and no list is returned.
\<close>

fun chunk_documents :: "pydict list \<Rightarrow> int \<Rightarrow> int \<Rightarrow> exn + pydict list" where
  "chunk_documents [] sz step = Inr []"
| "chunk_documents (doc # docs) sz step =
     (let (full, base) = pop_content doc in
      case sliding_window full sz step of
        Inl e \<Rightarrow> Inl e
      | Inr chs \<Rightarrow>
          (case chunk_documents docs sz step of
             Inl e \<Rightarrow> Inl e
           | Inr rest \<Rightarrow> Inr (map (\<lambda>ch. update ch base) chs @ rest)))"

section \<open>Chunking documents on a store of dictionaries\<close>

text \<open>
  Python dictionaries are objects: \<^verbatim>\<open>doc.copy()\<close> makes a new one, \<^verbatim>\<open>base.pop\<close> and
  \<^verbatim>\<open>ch.update\<close> change one in place.  The store is the list of the dictionaries
  allocated so far, the address of a dictionary is its position, and a list of documents
  is a list of addresses.  Every function returns the store it leaves behind, also when
  it raises.
\<close>

type_synonym addr = nat

type_synonym heap = "pydict list"

definition alloc :: "pydict \<Rightarrow> heap \<Rightarrow> addr \<times> heap" where
  "alloc d h = (length h, h @ [d])"

function sw_loop_h :: "pyval \<Rightarrow> int \<Rightarrow> int \<Rightarrow> int \<Rightarrow> int \<Rightarrow> heap \<Rightarrow> addr list \<times> heap" where
  "sw_loop_h text n sz step i h =
     (if 0 < step \<and> i < n
      then let (a, h1) = alloc (mk_chunk i (py_slice text i (i + sz))) h in
           if i + sz > n then ([a], h1)
           else let (out, h2) = sw_loop_h text n sz step (i + step) h1 in (a # out, h2)
      else ([], h))"
  by pat_completeness auto
termination
  by (relation "measure (\<lambda>(text, n, sz, step, i, h). nat (n - i))") auto

declare sw_loop_h.simps [simp del]

definition sliding_window_h :: "pyval \<Rightarrow> int \<Rightarrow> int \<Rightarrow> heap \<Rightarrow> (exn + addr list) \<times> heap" where
  "sliding_window_h text sz step h =
     (if sz \<le> 0 \<or> step \<le> 0 then (Inl ValueError, h)
      else case py_len text of
             Inl e \<Rightarrow> (Inl e, h)
           | Inr n \<Rightarrow> (let (out, h1) = sw_loop_h text n sz step 0 h in (Inr out, h1)))"

text \<open>The inner loop of \<^verbatim>\<open>chunk_documents\<close>: \<^verbatim>\<open>ch.update(base)\<close> for each chunk in turn.\<close>

fun update_each :: "addr list \<Rightarrow> addr \<Rightarrow> heap \<Rightarrow> heap" where
  "update_each [] base h = h"
| "update_each (ch # chs) base h = update_each chs base (h[ch := update (h ! ch) (h ! base)])"

fun chunk_documents_h :: "addr list \<Rightarrow> int \<Rightarrow> int \<Rightarrow> heap \<Rightarrow> (exn + addr list) \<times> heap" where
  "chunk_documents_h [] sz step h = (Inr [], h)"
| "chunk_documents_h (doc # docs) sz step h =
     (let (base, h1) = alloc (h ! doc) h;
          (full, popped) = pop_content (h1 ! base);
          h2 = h1[base := popped]
      in case sliding_window_h full sz step h2 of
           (Inl e, h3) \<Rightarrow> (Inl e, h3)
         | (Inr chs, h3) \<Rightarrow>
             (case chunk_documents_h docs sz step (update_each chs base h3) of
                (Inl e, h4) \<Rightarrow> (Inl e, h4)
              | (Inr rest, h4) \<Rightarrow> (Inr (chs @ rest), h4)))"

section \<open>Reading the repository\<close>

text \<open>
  One member of the downloaded archive: its name, and what opening and reading it
  gives, the bytes or an exception.
\<close>

record zip_entry =
  entry_name :: string
  entry_read :: "exn + string"

text \<open>
  What \<^verbatim>\<open>read_repo_data\<close> calls outside this repository.  \<open>fetch\<close> stands for
  \<^verbatim>\<open>requests.get\<close>, \<^verbatim>\<open>raise_for_status\<close> and \<^verbatim>\<open>zipfile.ZipFile\<close> together: from
  the addresses requested before and the address requested now, the members of the
  archive or the exception raised.  \<open>loads\<close> stands for \<^verbatim>\<open>frontmatter.loads\<close>: the
  metadata and the body of a file, or the exception of the parser.
\<close>

record world =
  fetch :: "string list \<Rightarrow> string \<Rightarrow> exn + zip_entry list"
  loads :: "string \<Rightarrow> exn + pydict \<times> string"

text \<open>The arguments of \<^verbatim>\<open>read_repo_data\<close> other than the branches and the timeout.\<close>

record repo_args =
  repo_owner :: string
  repo_name :: string
  include_exts :: "string list"
  include_prefixes :: "string list"

definition mk_url :: "repo_args \<Rightarrow> string \<Rightarrow> string" where
  "mk_url args branch =
     ''https://codeload.github.com/'' @ repo_owner args @ ''/'' @ repo_name args @
     ''/zip/refs/heads/'' @ branch"

text \<open>\<^verbatim>\<open>str.lower\<close> on the letters of ASCII.\<close>

definition lower_char :: "char \<Rightarrow> char" where
  "lower_char c =
     (case map_of (zip ''ABCDEFGHIJKLMNOPQRSTUVWXYZ'' ''abcdefghijklmnopqrstuvwxyz'') c of
        None \<Rightarrow> c
      | Some l \<Rightarrow> l)"

definition lower :: "string \<Rightarrow> string" where
  "lower s = map lower_char s"

text \<open>\<^verbatim>\<open>s.endswith(t)\<close> and \<^verbatim>\<open>s.startswith(t)\<close> for a tuple \<open>t\<close>: some member fits.\<close>

definition endswith :: "string \<Rightarrow> string list \<Rightarrow> bool" where
  "endswith s t = list_ex (\<lambda>x. suffix x s) t"

definition startswith :: "string \<Rightarrow> string list \<Rightarrow> bool" where
  "startswith s t = list_ex (\<lambda>x. prefix x s) t"

text \<open>\<^verbatim>\<open>name.split("/", 1)\<close>: cut at the first slash, if there is one.\<close>

definition split1 :: "string \<Rightarrow> string list" where
  "split1 s =
     (if CHR ''/'' \<in> set s
      then [takeWhile (\<lambda>c. c \<noteq> CHR ''/'') s, tl (dropWhile (\<lambda>c. c \<noteq> CHR ''/'') s)]
      else [s])"

text \<open>
  The loop over \<^verbatim>\<open>zf.infolist()\<close>.  An exception of the archive or of the parser leaves
  the loop: the documents collected so far are dropped with it.
\<close>

fun extract_docs :: "world \<Rightarrow> repo_args \<Rightarrow> string \<Rightarrow> zip_entry list \<Rightarrow> exn + pydict list" where
  "extract_docs w args branch [] = Inr []"
| "extract_docs w args branch (file_info # infos) =
     (let name = entry_name file_info; name_lower = lower name in
      if \<not> endswith name_lower (include_exts args) then extract_docs w args branch infos
      else let parts = split1 name in
        if length parts \<noteq> 2 then extract_docs w args branch infos
        else let path = parts ! 1 in
          if include_prefixes args \<noteq> [] \<and> \<not> startswith path (include_prefixes args)
          then extract_docs w args branch infos
          else case entry_read file_info of
                 Inl e \<Rightarrow> Inl e
               | Inr raw \<Rightarrow>
                   (case loads w raw of
                      Inl e \<Rightarrow> Inl e
                    | Inr (metadata, content) \<Rightarrow>
                        (let data = metadata(''content'' \<mapsto> PStr content,
                                      ''filename'' \<mapsto> PStr name,
                                      ''path'' \<mapsto> PStr path,
                                      ''repo_owner'' \<mapsto> PStr (repo_owner args),
                                      ''repo_name'' \<mapsto> PStr (repo_name args),
                                      ''branch'' \<mapsto> PStr branch)
                         in case extract_docs w args branch infos of
                              Inl e \<Rightarrow> Inl e
                            | Inr docs \<Rightarrow> Inr (data # docs))))"

text \<open>
  The body of the \<^verbatim>\<open>try\<close> for one branch, after the requests \<open>hist\<close>: the download, then
  the extraction.
\<close>

definition try_branch :: "world \<Rightarrow> repo_args \<Rightarrow> string list \<Rightarrow> string \<Rightarrow> exn + pydict list" where
  "try_branch w args hist branch =
     (case fetch w hist (mk_url args branch) of
        Inl e \<Rightarrow> Inl e
      | Inr infos \<Rightarrow> extract_docs w args branch infos)"

text \<open>
  The loop over the branches.  \<open>branches\<close> is the whole tuple, which the final error
  names, \<open>bs\<close> what is left of it; \<open>hist\<close> collects the addresses requested, and is
  returned as the trace of the call.
\<close>

fun branch_loop ::
  "world \<Rightarrow> repo_args \<Rightarrow> string list \<Rightarrow> string list \<Rightarrow> exn option \<Rightarrow> string list \<Rightarrow>
   (exn + pydict list \<times> string) \<times> string list" where
  "branch_loop w args branches [] last_err hist = (Inl (RuntimeError branches last_err), hist)"
| "branch_loop w args branches (branch # bs) last_err hist =
     (case try_branch w args hist branch of
        Inr docs \<Rightarrow> (Inr (docs, branch), hist @ [mk_url args branch])
      | Inl e \<Rightarrow> branch_loop w args branches bs (Some e) (hist @ [mk_url args branch]))"

definition read_repo_data ::
  "world \<Rightarrow> repo_args \<Rightarrow> string list \<Rightarrow> (exn + pydict list \<times> string) \<times> string list" where
  "read_repo_data w args branches = branch_loop w args branches branches None []"

section \<open>Observing the repository reader\<close>

text \<open>
  An archive member survives the filters of the loop when its lowered name ends with one
  of the extensions, its name has a part after the first slash, and that part starts with
  one of the prefixes, if any prefix is configured.
\<close>

definition survives :: "repo_args \<Rightarrow> string \<Rightarrow> bool" where
  "survives args name \<longleftrightarrow>
     endswith (lower name) (include_exts args) \<and> length (split1 name) = 2 \<and>
     (include_prefixes args = [] \<or> startswith (split1 name ! 1) (include_prefixes args))"

text \<open>
  The outcome of the attempt number \<open>k\<close> of a call: the body of the \<^verbatim>\<open>try\<close> for the
  branch at position \<open>k\<close>, after the requests for the branches before it.
\<close>

definition attempt :: "world \<Rightarrow> repo_args \<Rightarrow> string list \<Rightarrow> nat \<Rightarrow> exn + pydict list" where
  "attempt w args branches k =
     try_branch w args (map (mk_url args) (take k branches)) (branches ! k)"

text \<open>
  A repository for the examples: the branch \<^verbatim>\<open>master\<close> has one document under
  \<^verbatim>\<open>EIPS/\<close> and a readme, the branch \<^verbatim>\<open>draft\<close> has three documents of which the
  second one does not parse, and no other branch exists.
\<close>

definition demo_args :: repo_args where
  "demo_args =
     \<lparr>repo_owner = ''ethereum'', repo_name = ''EIPs'',
      include_exts = [''.md'', ''.mdx''], include_prefixes = [''EIPS/'']\<rparr>"

definition demo_world :: world where
  "demo_world =
     \<lparr>fetch = (\<lambda>hist url.
        if url = mk_url demo_args ''master''
        then Inr [\<lparr>entry_name = ''EIPs-master/EIPS/eip-20.md'', entry_read = Inr ''ERC-20''\<rparr>,
                  \<lparr>entry_name = ''EIPs-master/README.md'', entry_read = Inr ''readme''\<rparr>]
        else if url = mk_url demo_args ''draft''
        then Inr [\<lparr>entry_name = ''EIPs-draft/EIPS/eip-1.md'', entry_read = Inr ''EIP-1''\<rparr>,
                  \<lparr>entry_name = ''EIPs-draft/EIPS/eip-2.MD'', entry_read = Inr ''bad''\<rparr>,
                  \<lparr>entry_name = ''EIPs-draft/EIPS/eip-3.md'', entry_read = Inr ''EIP-3''\<rparr>]
        else Inl (RequestError ''404'')),
      loads = (\<lambda>raw.
        if raw = ''bad'' then Inl (ParseError ''front matter'')
        else Inr ([''title'' \<mapsto> PStr ''t''], raw))\<rparr>"

section \<open>Reading chunks\<close>

text \<open>
  What a chunk dictionary says about its window: the offset under \<^verbatim>\<open>start\<close>, the
  length of the sequence under \<^verbatim>\<open>content\<close>, the position after its last character,
  and whether some chunk of a list holds the position \<open>p\<close> of the text.
\<close>

definition start_of :: "pydict \<Rightarrow> int" where
  "start_of c = (case c ''start'' of Some (PInt i) \<Rightarrow> i | _ \<Rightarrow> 0)"

definition content_len :: "pydict \<Rightarrow> int" where
  "content_len c =
     (case c ''content'' of
        Some (PStr s) \<Rightarrow> int (length s)
      | Some (PList l) \<Rightarrow> int (length l)
      | _ \<Rightarrow> 0)"

definition end_of :: "pydict \<Rightarrow> int" where
  "end_of c = start_of c + content_len c"

definition covers :: "pydict list \<Rightarrow> int \<Rightarrow> bool" where
  "covers cs p = list_ex (\<lambda>c. start_of c \<le> p \<and> p < end_of c) cs"

section \<open>Basic facts about the sliding window\<close>

lemma mk_chunk_start: "mk_chunk i b ''start'' = Some (PInt i)"
  by (simp add: mk_chunk_def)

lemma mk_chunk_content: "mk_chunk i b ''content'' = Some b"
  by (simp add: mk_chunk_def)

lemma mk_chunk_eq_iff: "mk_chunk i a = mk_chunk j b \<longleftrightarrow> i = j \<and> a = b"
  by (auto simp: mk_chunk_def fun_eq_iff)

lemma sw_loop_stop: "n \<le> i \<Longrightarrow> sw_loop text n sz step i = []"
  by (simp add: sw_loop.simps)

lemma sliding_window_empty:
  "0 < sz \<Longrightarrow> 0 < step \<Longrightarrow> sliding_window (PStr []) sz step = Inr []"
  by (simp add: sliding_window_def sw_loop_stop)

lemma chunk_documents_append:
  "chunk_documents (xs @ ys) sz step =
     (case chunk_documents xs sz step of
        Inl e \<Rightarrow> Inl e
      | Inr a \<Rightarrow> (case chunk_documents ys sz step of Inl e \<Rightarrow> Inl e | Inr b \<Rightarrow> Inr (a @ b)))"
  by (induction xs) (auto split: sum.splits prod.splits)

section \<open>The documented example\<close>

text \<open>
  Claim C7, as the code has it: on \<^verbatim>\<open>"Hello World Example"\<close> with size 10 and step 5 the
  function returns three chunks, at the offsets 0, 5 and 10, and their contents are the
  slices of ten characters from these offsets: \<^verbatim>\<open>"Hello Worl"\<close>, \<^verbatim>\<open>" World Exa"\<close> and
  \<^verbatim>\<open>"d Example"\<close>.
\<close>

theorem sliding_window_example:
  "sliding_window (PStr ''Hello World Example'') 10 5 =
     Inr [mk_chunk 0 (PStr ''Hello Worl''),
          mk_chunk 5 (PStr '' World Exa''),
          mk_chunk 10 (PStr ''d Example'')]"
  by (simp add: sliding_window_def sw_loop.simps slice_def)

text \<open>
  The contents \<^verbatim>\<open>"World Exam"\<close> and \<^verbatim>\<open>"Example"\<close>, which the docstring prints for the
  offsets 5 and 10, are not what the function returns.
\<close>

theorem sliding_window_example_counterexample:
  "sliding_window (PStr ''Hello World Example'') 10 5 \<noteq>
     Inr [mk_chunk 0 (PStr ''Hello Worl''),
          mk_chunk 5 (PStr ''World Exam''),
          mk_chunk 10 (PStr ''Example'')]"
  by (simp add: sliding_window_def sw_loop.simps slice_def mk_chunk_eq_iff)

section \<open>Invalid arguments\<close>

text \<open>
  Claim C5: for every text, a size or a step that is not positive makes
  \<^verbatim>\<open>sliding_window\<close> raise \<^verbatim>\<open>ValueError\<close>; no chunk is returned, and on the store no
  dictionary has been allocated or changed when it raises.
\<close>

theorem sliding_window_invalid:
  "sz \<le> 0 \<or> step \<le> 0 \<Longrightarrow>
     sliding_window text sz step = Inl ValueError \<and>
     sliding_window_h text sz step h = (Inl ValueError, h)"
  by (auto simp: sliding_window_def sliding_window_h_def)

theorem sliding_window_invalid_witness:
  "((0::int) \<le> 0 \<or> (5::int) \<le> 0) \<and>
   sliding_window (PStr ''abc'') 0 5 = Inl ValueError \<and>
   sliding_window_h (PStr ''abc'') 0 5 [] = (Inl ValueError, [])"
  using sliding_window_invalid [of 0 5 "PStr ''abc''" "[]"] by simp

section \<open>The empty text\<close>

text \<open>
  Claim C3, as the code has it: for a positive size and step the empty text gives no
  chunk at all, since \<^verbatim>\<open>range(0, 0, step)\<close> is empty.  So a record without a
  \<^verbatim>\<open>content\<close> field, which is chunked as the empty text, and a record whose content is
  empty contribute no chunk: chunking the record alone gives the empty list, and
  the chunks of a list of records are those of the list without the record.
\<close>

theorem sliding_window_empty_text:
  "0 < sz \<Longrightarrow> 0 < step \<Longrightarrow>
     sliding_window (PStr []) sz step = Inr [] \<and>
     (doc ''content'' = None \<or> doc ''content'' = Some (PStr []) \<longrightarrow>
        chunk_documents [doc] sz step = Inr [] \<and>
        chunk_documents (pre @ doc # post) sz step = chunk_documents (pre @ post) sz step)"
  by (auto simp: chunk_documents_append pop_content_def sliding_window_empty split: sum.splits)

theorem sliding_window_empty_text_witness:
  "(0::int) < 4 \<and> (0::int) < 2 \<and>
   sliding_window (PStr []) 4 2 = Inr [] \<and>
   chunk_documents [[''path'' \<mapsto> PStr ''a.md'']] 4 2 = Inr [] \<and>
   chunk_documents ([[''content'' \<mapsto> PStr ''abc'']] @ [''path'' \<mapsto> PStr ''a.md''] # []) 4 2 =
     chunk_documents ([[''content'' \<mapsto> PStr ''abc'']] @ []) 4 2"
  using sliding_window_empty_text
    [of 4 2 "[''path'' \<mapsto> PStr ''a.md'']" "[[''content'' \<mapsto> PStr ''abc'']]" "[]"]
  by simp

text \<open>
  The empty text does not give one chunk with \<open>start = 0\<close> and empty content, and a record
  without content gives no chunk.
\<close>

theorem sliding_window_empty_text_counterexample:
  "sliding_window (PStr []) 1 1 = Inr [] \<and>
   sliding_window (PStr []) 1 1 \<noteq> Inr [mk_chunk 0 (PStr [])] \<and>
   chunk_documents [[''path'' \<mapsto> PStr ''a.md'']] 1 1 = Inr []"
  by (simp add: sliding_window_def sw_loop_stop pop_content_def)

section \<open>Offsets, coverage and the end of the text\<close>

lemma start_of_mk_chunk [simp]: "start_of (mk_chunk i b) = i"
  by (simp add: start_of_def mk_chunk_def)

lemma content_len_mk_chunk [simp]:
  "content_len (mk_chunk i (PStr s)) = int (length s)"
  by (simp add: content_len_def mk_chunk_def)

lemma length_slice:
  "0 \<le> i \<Longrightarrow> 0 \<le> sz \<Longrightarrow>
     int (length (slice xs i (i + sz))) = max 0 (min sz (int (length xs) - i))"
  by (auto simp: slice_def)

lemma sw_loop_starts:
  "c \<in> set (sw_loop tx n sz step i) \<Longrightarrow> i \<le> start_of c \<and> start_of c < n"
proof (induction tx n sz step i rule: sw_loop.induct)
  case (1 tx n sz step i)
  show ?case
  proof (cases "0 < step \<and> i < n")
    case True
    with "1.prems" have "c = mk_chunk i (py_slice tx i (i + sz)) \<or>
        (\<not> i + sz > n \<and> c \<in> set (sw_loop tx n sz step (i + step)))"
      by (subst (asm) sw_loop.simps) (auto split: if_splits)
    then show ?thesis
    proof
      assume "c = mk_chunk i (py_slice tx i (i + sz))"
      with True show ?thesis by simp
    next
      assume a: "\<not> i + sz > n \<and> c \<in> set (sw_loop tx n sz step (i + step))"
      with True "1.IH" have "i + step \<le> start_of c \<and> start_of c < n" by simp
      with True show ?thesis by simp
    qed
  next
    case False
    with "1.prems" show ?thesis by (simp add: sw_loop.simps)
  qed
qed

lemma sw_loop_sorted: "sorted_wrt (<) (map start_of (sw_loop tx n sz step i))"
proof (induction tx n sz step i rule: sw_loop.induct)
  case (1 tx n sz step i)
  show ?case
  proof (cases "0 < step \<and> i < n \<and> \<not> i + sz > n")
    case True
    have "\<forall>c\<in>set (sw_loop tx n sz step (i + step)). i < start_of c"
      using sw_loop_starts [of _ tx n sz step "i + step"] True by fastforce
    with True "1.IH" show ?thesis
      by (subst sw_loop.simps) simp
  next
    case False
    then show ?thesis by (subst sw_loop.simps) auto
  qed
qed

lemma sw_loop_shape:
  "c \<in> set (sw_loop tx n sz step i) \<Longrightarrow>
     c = mk_chunk (start_of c) (py_slice tx (start_of c) (start_of c + sz))"
proof (induction tx n sz step i rule: sw_loop.induct)
  case (1 tx n sz step i)
  from "1.prems" have "0 < step \<and> i < n"
    by (subst (asm) sw_loop.simps) (auto split: if_splits)
  with "1.prems" have "c = mk_chunk i (py_slice tx i (i + sz)) \<or>
        (\<not> i + sz > n \<and> c \<in> set (sw_loop tx n sz step (i + step)))"
    by (subst (asm) sw_loop.simps) (auto split: if_splits)
  with "1.IH" \<open>0 < step \<and> i < n\<close> show ?case by auto
qed

lemma sw_loop_covers:
  "0 < step \<Longrightarrow> step \<le> sz \<Longrightarrow> 0 \<le> i \<Longrightarrow> i \<le> p \<Longrightarrow> p < int (length t) \<Longrightarrow>
     covers (sw_loop (PStr t) (int (length t)) sz step i) p"
proof (induction "PStr t" "int (length t)" sz step i rule: sw_loop.induct)
  case (1 sz step i)
  let ?n = "int (length t)"
  have len: "content_len (mk_chunk i (py_slice (PStr t) i (i + sz))) = min sz (?n - i)"
    using 1 by (simp add: length_slice)
  show ?case
  proof (cases "p < i + sz")
    case True
    with 1 len show ?thesis
      by (subst sw_loop.simps) (simp add: covers_def end_of_def)
  next
    case False
    with 1 have "covers (sw_loop (PStr t) ?n sz step (i + step)) p" by simp
    with 1 False show ?thesis
      by (subst sw_loop.simps) (simp add: covers_def)
  qed
qed

lemma sw_loop_last:
  "0 < step \<Longrightarrow> step \<le> sz \<Longrightarrow> 0 \<le> i \<Longrightarrow> i < int (length t) \<Longrightarrow>
     sw_loop (PStr t) (int (length t)) sz step i \<noteq> [] \<and>
     end_of (last (sw_loop (PStr t) (int (length t)) sz step i)) = int (length t)"
proof (induction "PStr t" "int (length t)" sz step i rule: sw_loop.induct)
  case (1 sz step i)
  let ?n = "int (length t)"
  have len: "content_len (mk_chunk i (py_slice (PStr t) i (i + sz))) = min sz (?n - i)"
    using 1 by (simp add: length_slice)
  show ?case
  proof (cases "i + sz > ?n")
    case True
    with 1 len show ?thesis
      by (subst (1 2) sw_loop.simps) (simp add: end_of_def)
  next
    case False
    show ?thesis
    proof (cases "i + step < ?n")
      case True
      with 1 False have IH: "sw_loop (PStr t) ?n sz step (i + step) \<noteq> [] \<and>
         end_of (last (sw_loop (PStr t) ?n sz step (i + step))) = ?n" by simp
      with 1 False show ?thesis
        by (subst (1 2) sw_loop.simps) simp
    next
      case F2: False
      then have "sw_loop (PStr t) ?n sz step (i + step) = []" by (simp add: sw_loop_stop)
      with 1 False F2 len show ?thesis
        by (subst (1 2) sw_loop.simps) (simp add: end_of_def)
    qed
  qed
qed


text \<open>
  Claim C2, as the code has it: for every text and every positive size and step the call
  returns chunks whose \<open>start\<close> values increase strictly, each chunk holding the slice of
  the text of \<open>size\<close> characters from its start.  The empty text gives no chunk.  For a
  text that is not empty and a step of at most the size, every position of the text lies
  in the range of some chunk, so that the ranges leave no gap, and the last chunk ends at
  the length of the text.
\<close>

theorem sliding_window_cover:
  "0 < sz \<Longrightarrow> 0 < step \<Longrightarrow>
     \<exists>cs. sliding_window (PStr t) sz step = Inr cs \<and>
       sorted_wrt (<) (map start_of cs) \<and>
       (\<forall>c\<in>set cs. c = mk_chunk (start_of c) (PStr (slice t (start_of c) (start_of c + sz)))) \<and>
       (t = [] \<longrightarrow> cs = []) \<and>
       (t \<noteq> [] \<and> step \<le> sz \<longrightarrow>
          (\<forall>p. 0 \<le> p \<and> p < int (length t) \<longrightarrow> covers cs p) \<and>
          cs \<noteq> [] \<and> end_of (last cs) = int (length t))"
proof -
  assume pos: "0 < sz" "0 < step"
  let ?cs = "sw_loop (PStr t) (int (length t)) sz step 0"
  have r: "sliding_window (PStr t) sz step = Inr ?cs"
    using pos by (simp add: sliding_window_def)
  have s: "sorted_wrt (<) (map start_of ?cs)"
    by (rule sw_loop_sorted)
  have sh: "\<forall>c\<in>set ?cs. c = mk_chunk (start_of c) (PStr (slice t (start_of c) (start_of c + sz)))"
    using sw_loop_shape [of _ "PStr t" "int (length t)" sz step 0] by simp
  have e: "t = [] \<longrightarrow> ?cs = []"
    by (simp add: sw_loop_stop)
  have c: "t \<noteq> [] \<and> step \<le> sz \<longrightarrow> (\<forall>p. 0 \<le> p \<and> p < int (length t) \<longrightarrow> covers ?cs p)"
    using pos sw_loop_covers [of step sz 0 _ t] by simp
  have l: "t \<noteq> [] \<and> step \<le> sz \<longrightarrow> ?cs \<noteq> [] \<and> end_of (last ?cs) = int (length t)"
    using pos sw_loop_last [of step sz 0 t] by simp
  from r s sh e c l show ?thesis by blast
qed

theorem sliding_window_cover_witness:
  "(0::int) < 4 \<and> (0::int) < 4 \<and>
   sliding_window (PStr ''0123456789'') 4 4 =
     Inr [mk_chunk 0 (PStr ''0123''), mk_chunk 4 (PStr ''4567''), mk_chunk 8 (PStr ''89'')] \<and>
   sorted_wrt (<) (map start_of [mk_chunk 0 (PStr ''0123''), mk_chunk 4 (PStr ''4567''), mk_chunk 8 (PStr ''89'')]) \<and>
   covers [mk_chunk 0 (PStr ''0123''), mk_chunk 4 (PStr ''4567''), mk_chunk 8 (PStr ''89'')] 9 \<and>
   end_of (last [mk_chunk 0 (PStr ''0123''), mk_chunk 4 (PStr ''4567''), mk_chunk 8 (PStr ''89'')]) = 10"
proof -
  let ?cs = "[mk_chunk 0 (PStr ''0123''), mk_chunk 4 (PStr ''4567''), mk_chunk 8 (PStr ''89'')]"
  have ev: "sliding_window (PStr ''0123456789'') 4 4 = Inr ?cs"
    by (simp add: sliding_window_def sw_loop.simps slice_def)
  from sliding_window_cover [of 4 4 "''0123456789''"]
  obtain cs where cs: "sliding_window (PStr ''0123456789'') 4 4 = Inr cs"
    "sorted_wrt (<) (map start_of cs)"
    "(\<forall>p. 0 \<le> p \<and> p < int (length ''0123456789'') \<longrightarrow> covers cs p)"
    "end_of (last cs) = int (length ''0123456789'')"
    by auto
  from cs(1) ev have "cs = ?cs" by simp
  with cs ev show ?thesis by simp
qed

text \<open>
  With a step above the size the two chunks of a text of ten characters leave the
  position 3 out and end at 7; and the empty text does not give an empty chunk.
\<close>

theorem sliding_window_cover_counterexample:
  "sliding_window (PStr ''0123456789'') 2 5 = Inr [mk_chunk 0 (PStr ''01''), mk_chunk 5 (PStr ''56'')] \<and>
   \<not> covers [mk_chunk 0 (PStr ''01''), mk_chunk 5 (PStr ''56'')] 3 \<and>
   end_of (last [mk_chunk 0 (PStr ''01''), mk_chunk 5 (PStr ''56'')]) \<noteq> 10 \<and>
   sliding_window (PStr []) 2 5 \<noteq> Inr [mk_chunk 0 (PStr [])]"
  by (simp add: sliding_window_def sw_loop.simps slice_def covers_def end_of_def)


section \<open>The stop test of the loop\<close>

text \<open>
  Claim C1, at a text of twenty characters with size 10 and step 5: the chunk at the
  offset 10 ends at 20, the length of the text, and the loop still emits the chunk at
  the offset 15, because it leaves on \<open>i + size > n\<close> only.
\<close>

theorem sliding_window_end_reached:
  "sliding_window (PStr ''Hello World Examples'') 10 5 =
     Inr [mk_chunk 0 (PStr ''Hello Worl''),
          mk_chunk 5 (PStr '' World Exa''),
          mk_chunk 10 (PStr ''d Examples''),
          mk_chunk 15 (PStr ''mples'')]"
  by (simp add: sliding_window_def sw_loop.simps slice_def)

section \<open>A metadata field named start\<close>

text \<open>
  Claim C4, at a record whose front matter has a field \<^verbatim>\<open>start\<close>: both chunks carry
  the 99 of the record under \<^verbatim>\<open>start\<close>, not their offsets 0 and 4, since
  \<^verbatim>\<open>ch.update(base)\<close> writes the fields of the record over those of the chunk.  The
  content is the one of the chunk.
\<close>

theorem chunk_documents_start_collision:
  "chunk_documents [[''content'' \<mapsto> PStr ''abcdef'', ''start'' \<mapsto> PInt 99]] 4 4 =
     Inr [[''start'' \<mapsto> PInt 99, ''content'' \<mapsto> PStr ''abcd''],
          [''start'' \<mapsto> PInt 99, ''content'' \<mapsto> PStr ''ef'']]"
  by (simp add: sliding_window_def sw_loop.simps slice_def pop_content_def update_def
      mk_chunk_def fun_eq_iff)

text \<open>
  Claim C6, at a record with a field \<^verbatim>\<open>start\<close>: the three chunks of the record all
  have the value 7 of the record under \<^verbatim>\<open>start\<close>, so the values do not increase.
\<close>

theorem chunk_documents_start_constant:
  "map_sum id (map (\<lambda>c. c ''start''))
     (chunk_documents
        [[''content'' \<mapsto> PStr ''0123456789'', ''path'' \<mapsto> PStr ''a.md'', ''start'' \<mapsto> PInt 7]] 4 4) =
   Inr [Some (PInt 7), Some (PInt 7), Some (PInt 7)]"
  by (simp add: sliding_window_def sw_loop.simps slice_def pop_content_def update_def
      mk_chunk_def)

section \<open>The store after chunking\<close>

text \<open>
  The loop on the store allocates the chunks of the loop on values, one after the other
  behind the dictionaries that were there.
\<close>

lemma upt_Suc_add: "[a ..< Suc (a + n)] = a # [Suc a ..< Suc (a + n)]"
  by (simp add: upt_conv_Cons)

lemma sw_loop_h_eq:
  "sw_loop_h tx n sz step i h =
     ([length h ..< length h + length (sw_loop tx n sz step i)], h @ sw_loop tx n sz step i)"
proof (induction tx n sz step i arbitrary: h rule: sw_loop.induct)
  case (1 tx n sz step i)
  note unf = sw_loop_h.simps [of tx n sz step i] sw_loop.simps [of tx n sz step i]
  show ?case
  proof (cases "0 < step \<and> i < n")
    case False
    then show ?thesis
      by (auto simp: unf)
  next
    case True
    note T = this
    show ?thesis
    proof (cases "i + sz > n")
      case True
      with T show ?thesis
        by (simp add: unf alloc_def)
    next
      case False
      with T "1.IH" [of "h @ [mk_chunk i (py_slice tx i (i + sz))]"] show ?thesis
        by (simp add: unf alloc_def upt_Suc_add del: upt_Suc)
    qed
  qed
qed

lemma sliding_window_h_eq:
  "sliding_window_h tx sz step h =
     (case sliding_window tx sz step of
        Inl e \<Rightarrow> (Inl e, h)
      | Inr cs \<Rightarrow> (Inr [length h ..< length h + length cs], h @ cs))"
  by (simp add: sliding_window_h_def sliding_window_def sw_loop_h_eq split: sum.splits)

lemma update_each_fresh:
  "base < length h0 \<Longrightarrow>
   update_each [length h0 + length ds ..< length h0 + length ds + length cs] base (h0 @ ds @ cs) =
     h0 @ ds @ map (\<lambda>ch. update ch (h0 ! base)) cs"
proof (induction cs arbitrary: ds)
  case Nil
  then show ?case by simp
next
  case (Cons c cs)
  let ?d = "ds @ [update c (h0 ! base)]"
  have upd: "(h0 @ ds @ c # cs)[length h0 + length ds := update c (h0 ! base)] = h0 @ ?d @ cs"
    by (simp add: list_update_append)
  have rd: "(h0 @ ds @ c # cs) ! (length h0 + length ds) = c" "(h0 @ ds @ c # cs) ! base = h0 ! base"
    using Cons.prems by (simp_all add: nth_append)
  have "update_each [length h0 + length ds ..< length h0 + length ds + length (c # cs)] base (h0 @ ds @ c # cs)
      = update_each [length h0 + length ?d ..< length h0 + length ?d + length cs] base (h0 @ ?d @ cs)"
    using upd rd by (simp add: upt_Suc_add del: upt_Suc)
  also have "\<dots> = h0 @ ?d @ map (\<lambda>ch. update ch (h0 ! base)) cs"
    using Cons.prems by (rule Cons.IH)
  finally show ?case by simp
qed

lemma chunk_documents_h_sound:
  "\<forall>d\<in>set docs. d < length h \<Longrightarrow> chunk_documents_h docs sz step h = (r, h') \<Longrightarrow>
     (\<exists>ext. h' = h @ ext) \<and>
     (case r of Inl e \<Rightarrow> chunk_documents (map ((!) h) docs) sz step = Inl e
      | Inr as \<Rightarrow> (\<forall>a\<in>set as. a < length h') \<and>
                  chunk_documents (map ((!) h) docs) sz step = Inr (map ((!) h') as))"
proof (induction docs arbitrary: h r h')
  case Nil
  then show ?case by auto
next
  case (Cons doc docs)
  let ?d = "h ! doc"
  let ?full = "fst (pop_content ?d)"
  let ?base = "snd (pop_content ?d)"
  let ?h2 = "h @ [?base]"
  have h2: "(h @ [?d])[length h := ?base] = ?h2" by simp
  show ?case
  proof (cases "sliding_window ?full sz step")
    case (Inl e)
    with Cons.prems(2) have "r = Inl e" "h' = ?h2"
      by (auto simp: alloc_def sliding_window_h_eq split: prod.splits)
    with Inl show ?thesis by (simp add: split_beta)
  next
    case (Inr cs)
    let ?h3 = "?h2 @ map (\<lambda>ch. update ch ?base) cs"
    have ue: "update_each [length ?h2 ..< length ?h2 + length cs] (length h) (?h2 @ cs) = ?h3"
      using update_each_fresh [of "length h" ?h2 "[]" cs] by simp
    obtain r1 h4 where rec: "chunk_documents_h docs sz step ?h3 = (r1, h4)"
      by (cases "chunk_documents_h docs sz step ?h3") 
    have valid: "\<forall>d\<in>set docs. d < length ?h3" using Cons.prems(1) by auto
    have same: "map ((!) ?h3) docs = map ((!) h) docs"
      using Cons.prems(1) by (auto simp: nth_append)
    have ih: "(\<exists>ext. h4 = ?h3 @ ext) \<and>
       (case r1 of Inl e \<Rightarrow> chunk_documents (map ((!) ?h3) docs) sz step = Inl e
          | Inr as \<Rightarrow> (\<forall>a\<in>set as. a < length h4) \<and>
                  chunk_documents (map ((!) ?h3) docs) sz step = Inr (map ((!) h4) as))"
      by (rule Cons.IH [OF valid rec])
    from ih obtain ext where ext: "h4 = ?h3 @ ext" by blast
    from ih have res: "case r1 of Inl e \<Rightarrow> chunk_documents (map ((!) h) docs) sz step = Inl e
          | Inr as \<Rightarrow> (\<forall>a\<in>set as. a < length h4) \<and>
                  chunk_documents (map ((!) h) docs) sz step = Inr (map ((!) h4) as)"
      unfolding same by (rule conjunct2)
    have step1: "chunk_documents_h (doc # docs) sz step h =
       (case r1 of Inl e \<Rightarrow> (Inl e, h4)
        | Inr rest \<Rightarrow> (Inr ([length ?h2 ..< length ?h2 + length cs] @ rest), h4))"
      using Inr rec ue h2
      by (simp add: alloc_def sliding_window_h_eq split_beta del: upt_Suc split: sum.splits)
    have rd: "map ((!) h4) [length ?h2 ..< length ?h2 + length cs] = map (\<lambda>ch. update ch ?base) cs"
      unfolding ext
      by (rule nth_equalityI) (simp_all add: nth_append del: upt_Suc)
    show ?thesis
    proof (cases r1)
      case (Inl e)
      with step1 Cons.prems(2) res Inr ext show ?thesis
        by (auto simp: split_beta)
    next
      case r1: (Inr rest)
      with step1 Cons.prems(2) have rr: "r = Inr ([length ?h2 ..< length ?h2 + length cs] @ rest)" "h' = h4"
        by auto
      from r1 res have rest: "\<forall>a\<in>set rest. a < length h4"
        "chunk_documents (map ((!) h) docs) sz step = Inr (map ((!) h4) rest)" by auto
      have b: "\<forall>a\<in>set [length ?h2 ..< length ?h2 + length cs]. a < length h4"
        unfolding ext by auto
      let ?new = "[length ?h2 ..< length ?h2 + length cs]"
      have g1: "\<exists>ext. h4 = h @ ext" using ext by simp
      have g2: "\<forall>a\<in>set (?new @ rest). a < length h4"
        using rest(1) b by auto
      have g3: "chunk_documents (map ((!) h) (doc # docs)) sz step = Inr (map ((!) h4) (?new @ rest))"
        using rest(2) rd Inr by (simp add: split_beta del: upt_Suc)
      from g1 g2 g3 show ?thesis
        unfolding rr by (simp only: sum.case)
    qed
  qed
qed


text \<open>
  Claim C10: after \<^verbatim>\<open>chunk_documents\<close>, whether it returned or raised, every dictionary
  that was in the store before the call is what it was; so is each input record, with
  its \<^verbatim>\<open>content\<close>.  The copies and the chunks are new dictionaries, and the chunks read
  from the final store are the ones the function computes on values.
\<close>

theorem chunk_documents_h_frame:
  "\<forall>d\<in>set docs. d < length h \<Longrightarrow>
     take (length h) (snd (chunk_documents_h docs sz step h)) = h \<and>
     (\<forall>d\<in>set docs. snd (chunk_documents_h docs sz step h) ! d = h ! d) \<and>
     map_sum id (map ((!) (snd (chunk_documents_h docs sz step h))))
       (fst (chunk_documents_h docs sz step h)) =
     chunk_documents (map ((!) h) docs) sz step"
proof -
  assume valid: "\<forall>d\<in>set docs. d < length h"
  obtain r h' where run: "chunk_documents_h docs sz step h = (r, h')"
    by (cases "chunk_documents_h docs sz step h")
  from chunk_documents_h_sound [OF valid run]
  obtain ext where ext: "h' = h @ ext"
    and res: "case r of Inl e \<Rightarrow> chunk_documents (map ((!) h) docs) sz step = Inl e
      | Inr as \<Rightarrow> (\<forall>a\<in>set as. a < length h') \<and>
                  chunk_documents (map ((!) h) docs) sz step = Inr (map ((!) h') as)"
    by blast
  have a: "take (length h) h' = h" using ext by simp
  have b: "\<forall>d\<in>set docs. h' ! d = h ! d" using ext valid by (simp add: nth_append)
  have c: "map_sum id (map ((!) h')) r = chunk_documents (map ((!) h) docs) sz step"
    using res by (cases r) simp_all
  from a b c show ?thesis by (simp add: run)
qed

theorem chunk_documents_h_frame_witness:
  "(0::nat) < length [[''content'' \<mapsto> PStr ''abcdef'', ''path'' \<mapsto> PStr ''a.md'']] \<and>
   take (length [[''content'' \<mapsto> PStr ''abcdef'', ''path'' \<mapsto> PStr ''a.md'']])
     (snd (chunk_documents_h [0] 4 4 [[''content'' \<mapsto> PStr ''abcdef'', ''path'' \<mapsto> PStr ''a.md'']])) =
     [[''content'' \<mapsto> PStr ''abcdef'', ''path'' \<mapsto> PStr ''a.md'']] \<and>
   (snd (chunk_documents_h [0] 4 4 [[''content'' \<mapsto> PStr ''abcdef'', ''path'' \<mapsto> PStr ''a.md'']]) ! 0)
     ''content'' = Some (PStr ''abcdef'')"
proof -
  let ?h = "[[''content'' \<mapsto> PStr ''abcdef'', ''path'' \<mapsto> PStr ''a.md'']]"
  have valid: "\<forall>d\<in>set [0::nat]. d < length ?h" by simp
  from chunk_documents_h_frame [OF valid, of 4 4]
  have t: "take (length ?h) (snd (chunk_documents_h [0] 4 4 ?h)) = ?h"
    and n: "snd (chunk_documents_h [0] 4 4 ?h) ! 0 = ?h ! 0"
    by (simp_all del: chunk_documents_h.simps)
  have "(?h ! 0) ''content'' = Some (PStr ''abcdef'')" by simp
  with t n show ?thesis by (simp del: chunk_documents_h.simps)
qed

lemma heap_run_example:
  "chunk_documents_h [0] 4 4 [[''content'' \<mapsto> PStr ''abcdef'', ''path'' \<mapsto> PStr ''a.md'']] =
     (Inr [2, 3],
      [[''content'' \<mapsto> PStr ''abcdef'', ''path'' \<mapsto> PStr ''a.md''],
       [''content'' \<mapsto> PStr ''abcdef'', ''path'' \<mapsto> PStr ''a.md''](''content'' := None),
       update (mk_chunk 0 (PStr ''abcd'')) ([''content'' \<mapsto> PStr ''abcdef'', ''path'' \<mapsto> PStr ''a.md''](''content'' := None)),
       update (mk_chunk 4 (PStr ''ef'')) ([''content'' \<mapsto> PStr ''abcdef'', ''path'' \<mapsto> PStr ''a.md''](''content'' := None))])"
  by (simp add: alloc_def pop_content_def sliding_window_h_def sw_loop_h.simps slice_def)

section \<open>Branch fallback and parse failures\<close>

lemma extract_docs_append:
  "extract_docs w args branch (xs @ ys) =
     (case extract_docs w args branch xs of
        Inl e \<Rightarrow> Inl e
      | Inr a \<Rightarrow> (case extract_docs w args branch ys of Inl e \<Rightarrow> Inl e | Inr b \<Rightarrow> Inr (a @ b)))"
  by (induction xs) (auto simp: Let_def split: sum.splits prod.splits)

lemma extract_docs_parse_failure:
  "survives args (entry_name fi) \<Longrightarrow> entry_read fi = Inr raw \<Longrightarrow> loads w raw = Inl e \<Longrightarrow>
     extract_docs w args branch (fi # post) = Inl e"
  by (auto simp: survives_def Let_def)

lemma extract_docs_branch:
  "extract_docs w args branch infos = Inr docs \<Longrightarrow> d \<in> set docs \<Longrightarrow>
     d ''branch'' = Some (PStr branch)"
proof (induction infos arbitrary: docs)
  case Nil
  then show ?case by simp
next
  case (Cons fi infos)
  then show ?case
    by (auto simp: Let_def split: if_splits sum.splits prod.splits)
qed

lemma branch_loop_success:
  "k < length bs \<Longrightarrow>
   \<forall>j<k. isl (try_branch w args (hist @ map (mk_url args) (take j bs)) (bs ! j)) \<Longrightarrow>
   try_branch w args (hist @ map (mk_url args) (take k bs)) (bs ! k) = Inr docs \<Longrightarrow>
   branch_loop w args branches bs last_err hist =
     (Inr (docs, bs ! k), hist @ map (mk_url args) (take (Suc k) bs))"
proof (induction bs arbitrary: k hist last_err)
  case Nil
  then show ?case by simp
next
  case (Cons b bs)
  show ?case
  proof (cases k)
    case 0
    with Cons.prems show ?thesis by simp
  next
    case (Suc k')
    from Cons.prems(2) Suc have "isl (try_branch w args hist b)" by fastforce
    then obtain e where e: "try_branch w args hist b = Inl e" by (cases "try_branch w args hist b") auto
    have a: "k' < length bs" using Cons.prems(1) Suc by simp
    have b: "\<forall>j<k'. isl (try_branch w args ((hist @ [mk_url args b]) @ map (mk_url args) (take j bs)) (bs ! j))"
    proof (intro allI impI)
      fix j assume "j < k'"
      with Cons.prems(2) Suc have "isl (try_branch w args (hist @ map (mk_url args) (take (Suc j) (b # bs))) ((b # bs) ! Suc j))"
        by blast
      then show "isl (try_branch w args ((hist @ [mk_url args b]) @ map (mk_url args) (take j bs)) (bs ! j))"
        by simp
    qed
    have c: "try_branch w args ((hist @ [mk_url args b]) @ map (mk_url args) (take k' bs)) (bs ! k') = Inr docs"
      using Cons.prems(3) Suc by simp
    from Cons.IH [OF a b c, of "Some e"] e Suc show ?thesis by simp
  qed
qed

lemma branch_loop_failure:
  "\<forall>j<length bs. isl (try_branch w args (hist @ map (mk_url args) (take j bs)) (bs ! j)) \<Longrightarrow>
   branch_loop w args branches bs last_err hist =
     (Inl (RuntimeError branches
        (if bs = [] then last_err
         else Some (projl (try_branch w args (hist @ map (mk_url args) (butlast bs)) (last bs))))),
      hist @ map (mk_url args) bs)"
proof (induction bs arbitrary: hist last_err)
  case Nil
  then show ?case by simp
next
  case (Cons b bs)
  from Cons.prems have "isl (try_branch w args hist b)" by fastforce
  then obtain e where e: "try_branch w args hist b = Inl e" by (cases "try_branch w args hist b") auto
  have b: "\<forall>j<length bs. isl (try_branch w args ((hist @ [mk_url args b]) @ map (mk_url args) (take j bs)) (bs ! j))"
  proof (intro allI impI)
    fix j assume "j < length bs"
    with Cons.prems have "isl (try_branch w args (hist @ map (mk_url args) (take (Suc j) (b # bs))) ((b # bs) ! Suc j))"
      by (metis Suc_less_eq length_Cons)
    then show "isl (try_branch w args ((hist @ [mk_url args b]) @ map (mk_url args) (take j bs)) (bs ! j))"
      by simp
  qed
  from Cons.IH [OF b, of "Some e"] e show ?case by simp
qed


text \<open>
  Claim C8: the branches are attempted in the order of the tuple.  When the attempts
  before position \<open>k\<close> fail and the one at \<open>k\<close> succeeds, the call returns the documents
  of that attempt with the branch at \<open>k\<close>, it has requested the archives of the branches up
  to \<open>k\<close> and no other, and every returned document has that branch under \<^verbatim>\<open>branch\<close>.
  When every attempt fails, the call raises \<^verbatim>\<open>RuntimeError\<close> with the tuple of branches
  and the exception of the last attempt, after requesting each branch once, in order; for
  an empty tuple there is no last exception and the error carries \<^verbatim>\<open>None\<close>.
\<close>

theorem read_repo_data_fallback:
  "(k < length branches \<and> (\<forall>j<k. isl (attempt w args branches j)) \<and>
    attempt w args branches k = Inr docs \<longrightarrow>
      read_repo_data w args branches =
        (Inr (docs, branches ! k), map (mk_url args) (take (Suc k) branches)) \<and>
      (\<forall>d\<in>set docs. d ''branch'' = Some (PStr (branches ! k)))) \<and>
   ((\<forall>j<length branches. isl (attempt w args branches j)) \<longrightarrow>
      read_repo_data w args branches =
        (Inl (RuntimeError branches
           (if branches = [] then None
            else Some (projl (attempt w args branches (length branches - 1))))),
         map (mk_url args) branches))"
proof (intro conjI impI)
  assume a: "k < length branches \<and> (\<forall>j<k. isl (attempt w args branches j)) \<and>
    attempt w args branches k = Inr docs"
  then show "read_repo_data w args branches =
        (Inr (docs, branches ! k), map (mk_url args) (take (Suc k) branches))"
    using branch_loop_success [of k branches w args "[]" docs branches None]
    by (simp add: read_repo_data_def attempt_def)
  from a have "extract_docs w  args (branches ! k)
      (projr (fetch w (map (mk_url args) (take k branches)) (mk_url args (branches ! k)))) = Inr docs"
    by (auto simp: attempt_def try_branch_def split: sum.splits)
  then show "\<forall>d\<in>set docs. d ''branch'' = Some (PStr (branches ! k))"
    using extract_docs_branch by blast
next
  assume a: "\<forall>j<length branches. isl (attempt w args branches j)"
  have "branches \<noteq> [] \<Longrightarrow> take (length branches - 1) branches = butlast branches \<and>
      branches ! (length branches - 1) = last branches"
    by (simp add: butlast_conv_take last_conv_nth)
  with a show "read_repo_data w args branches =
        (Inl (RuntimeError branches
           (if branches = [] then None
            else Some (projl (attempt w args branches (length branches - 1))))),
         map (mk_url args) branches)"
    using branch_loop_failure [of branches w args "[]" branches None]
    by (simp add: read_repo_data_def attempt_def)
qed

theorem read_repo_data_fallback_witness:
  "(1::nat) < length [''main'', ''master''] \<and>
   isl (attempt demo_world demo_args [''main'', ''master''] 0) \<and>
   read_repo_data demo_world demo_args [''main'', ''master''] =
     (Inr (projr (attempt demo_world demo_args [''main'', ''master''] 1), ''master''),
      [mk_url demo_args ''main'', mk_url demo_args ''master'']) \<and>
   map (\<lambda>d. (d ''branch'', d ''path''))
     (projr (attempt demo_world demo_args [''main'', ''master''] 1)) =
     [(Some (PStr ''master''), Some (PStr ''EIPS/eip-20.md''))] \<and>
   read_repo_data demo_world demo_args [''dev'', ''main''] =
     (Inl (RuntimeError [''dev'', ''main''] (Some (RequestError ''404''))),
      [mk_url demo_args ''dev'', mk_url demo_args ''main''])"
proof -
  let ?bs = "[''main'', ''master'']"
  let ?data = "[''title'' \<mapsto> PStr ''t'', ''content'' \<mapsto> PStr ''ERC-20'',
                ''filename'' \<mapsto> PStr ''EIPs-master/EIPS/eip-20.md'',
                ''path'' \<mapsto> PStr ''EIPS/eip-20.md'',
                ''repo_owner'' \<mapsto> PStr ''ethereum'',
                ''repo_name'' \<mapsto> PStr ''EIPs'',
                ''branch'' \<mapsto> PStr ''master'']"
  have a0: "attempt demo_world demo_args ?bs 0 = Inl (RequestError ''404'')"
    by (simp add: attempt_def try_branch_def demo_world_def demo_args_def mk_url_def)
  have a1: "attempt demo_world demo_args ?bs 1 = Inr [?data]"
    by (simp add: attempt_def try_branch_def demo_world_def demo_args_def mk_url_def
        lower_def lower_char_def endswith_def startswith_def split1_def suffix_to_prefix Let_def)
  have pre: "1 < length ?bs \<and> (\<forall>j<1. isl (attempt demo_world demo_args ?bs j)) \<and>
      attempt demo_world demo_args ?bs 1 = Inr [?data]"
    using a0 a1 by simp
  have ok: "read_repo_data demo_world demo_args ?bs =
      (Inr ([?data], ?bs ! 1), map (mk_url demo_args) (take (Suc 1) ?bs))"
    using read_repo_data_fallback [of 1 ?bs demo_world demo_args "[?data]", THEN conjunct1] pre
    by blast
  let ?cs = "[''dev'', ''main'']"
  have b0: "attempt demo_world demo_args ?cs 0 = Inl (RequestError ''404'')"
    by (simp add: attempt_def try_branch_def demo_world_def demo_args_def mk_url_def)
  have b1: "attempt demo_world demo_args ?cs 1 = Inl (RequestError ''404'')"
    by (simp add: attempt_def try_branch_def demo_world_def demo_args_def mk_url_def)
  have all: "\<forall>j<length ?cs. isl (attempt demo_world demo_args ?cs j)"
    using b0 b1 by (simp add: less_Suc_eq)
  have bad: "read_repo_data demo_world demo_args ?cs =
      (Inl (RuntimeError ?cs (if ?cs = [] then None
          else Some (projl (attempt demo_world demo_args ?cs (length ?cs - 1))))),
       map (mk_url demo_args) ?cs)"
    using read_repo_data_fallback [of 0 ?cs demo_world demo_args "[]", THEN conjunct2] all
    by blast
  from a0 have f0: "isl (attempt demo_world demo_args ?bs 0)" by simp
  have ev: "map (\<lambda>d. (d ''branch'', d ''path'')) [?data] =
     [(Some (PStr ''master''), Some (PStr ''EIPS/eip-20.md''))]" by simp
  from ok bad f0 ev a1 b1 show ?thesis by simp
qed

text \<open>
  Claim C9: when the parser fails on a file that survives the filters, the extraction of
  the archive fails, whatever files come before and after it; the exception is the one of
  the parser when the files before it went through; and the attempt for that branch
  fails with it, so that no document of the archive is returned.
\<close>

theorem parse_failure_aborts:
  "survives args (entry_name fi) \<Longrightarrow> entry_read fi = Inr raw \<Longrightarrow> loads w raw = Inl e \<Longrightarrow>
     isl (extract_docs w args branch (pre @ fi # post)) \<and>
     (extract_docs w args branch pre = Inr docs \<longrightarrow>
        extract_docs w args branch (pre @ fi # post) = Inl e) \<and>
     (fetch w hist (mk_url args branch) = Inr (pre @ fi # post) \<longrightarrow>
        isl (try_branch w args hist branch))"
proof -
  assume a: "survives args (entry_name fi)" "entry_read fi = Inr raw" "loads w raw = Inl e"
  have f: "extract_docs w args branch (fi # post) = Inl e"
    using a by (rule extract_docs_parse_failure)
  have g: "isl (extract_docs w args branch (pre @ fi # post))"
    by (simp add: extract_docs_append f del: extract_docs.simps split: sum.splits)
  have h: "extract_docs w args branch pre = Inr docs \<longrightarrow>
        extract_docs w args branch (pre @ fi # post) = Inl e"
    by (simp add: extract_docs_append f del: extract_docs.simps)
  have i: "fetch w hist (mk_url args branch) = Inr (pre @ fi # post) \<longrightarrow>
        isl (try_branch w args hist branch)"
    using g by (simp add: try_branch_def)
  from g h i show ?thesis by blast
qed

theorem parse_failure_aborts_witness:
  "survives demo_args ''EIPs-draft/EIPS/eip-2.MD'' \<and>
   loads demo_world ''bad'' = Inl (ParseError ''front matter'') \<and>
   extract_docs demo_world demo_args ''draft''
     ([\<lparr>entry_name = ''EIPs-draft/EIPS/eip-1.md'', entry_read = Inr ''EIP-1''\<rparr>] @
      \<lparr>entry_name = ''EIPs-draft/EIPS/eip-2.MD'', entry_read = Inr ''bad''\<rparr> #
      [\<lparr>entry_name = ''EIPs-draft/EIPS/eip-3.md'', entry_read = Inr ''EIP-3''\<rparr>]) =
     Inl (ParseError ''front matter'') \<and>
   isl (try_branch demo_world demo_args [] ''draft'')"
proof -
  let ?fi = "\<lparr>entry_name = ''EIPs-draft/EIPS/eip-2.MD'', entry_read = Inr ''bad''\<rparr>"
  let ?pre = "[\<lparr>entry_name = ''EIPs-draft/EIPS/eip-1.md'', entry_read = Inr ''EIP-1''\<rparr>]"
  let ?post = "[\<lparr>entry_name = ''EIPs-draft/EIPS/eip-3.md'', entry_read = Inr ''EIP-3''\<rparr>]"
  have s: "survives demo_args (entry_name ?fi)"
    by (simp add: survives_def demo_args_def lower_def lower_char_def endswith_def
        startswith_def split1_def suffix_to_prefix)
  have r: "entry_read ?fi = Inr ''bad''" by simp
  have l: "loads demo_world ''bad'' = Inl (ParseError ''front matter'')"
    by (simp add: demo_world_def)
  have p: "\<exists>docs. extract_docs demo_world demo_args ''draft'' ?pre = Inr docs"
    by (simp add: demo_world_def demo_args_def lower_def lower_char_def endswith_def
        startswith_def split1_def suffix_to_prefix Let_def)
  have f: "fetch demo_world [] (mk_url demo_args ''draft'') = Inr (?pre @ ?fi # ?post)"
    by (simp add: demo_world_def demo_args_def mk_url_def)
  from parse_failure_aborts [OF s r l, of "''draft''" ?pre ?post _ "[]"] p f
  have "extract_docs demo_world demo_args ''draft'' (?pre @ ?fi # ?post) =
      Inl (ParseError ''front matter'')"
    and "isl (try_branch demo_world demo_args [] ''draft'')"
    by blast+
  with s l show ?thesis by simp
qed

section \<open>What chunking keeps of a record\<close>

text \<open>
  The merge writes the fields of the record, without its \<^verbatim>\<open>content\<close>, over the chunk.
  So every field of a record other than \<^verbatim>\<open>content\<close> is on each of its chunks with the
  value of the record, the content of a chunk is its slice, and the offsets of the chunks
  of a record increase strictly when the record has no field \<^verbatim>\<open>start\<close>.  The chunks
  of a list of records come record by record (\<open>chunk_documents_append\<close>).
\<close>

lemma update_field:
  "k \<noteq> ''content'' \<Longrightarrow> doc k = Some v \<Longrightarrow> update ch (snd (pop_content doc)) k = Some v"
  by (simp add: update_def pop_content_def map_add_def)

lemma update_keeps_content:
  "update (mk_chunk i b) (snd (pop_content doc)) ''content'' = Some b"
  by (simp add: update_def pop_content_def map_add_def mk_chunk_def)

lemma update_keeps_start:
  "doc ''start'' = None \<Longrightarrow> start_of (update ch (snd (pop_content doc))) = start_of ch"
  by (simp add: update_def pop_content_def map_add_def start_of_def)

lemma chunk_documents_single:
  "chunk_documents [doc] sz step =
     map_sum id (map (\<lambda>ch. update ch (snd (pop_content doc))))
       (sliding_window (fst (pop_content doc)) sz step)"
  by (simp add: split_beta split: sum.splits)

lemma chunk_documents_fields:
  "chunk_documents docs sz step = Inr cs \<Longrightarrow> c \<in> set cs \<Longrightarrow>
     \<exists>doc\<in>set docs. \<forall>k v. k \<noteq> ''content'' \<longrightarrow> doc k = Some v \<longrightarrow> c k = Some v"
proof (induction docs arbitrary: cs)
  case Nil
  then show ?case by simp
next
  case (Cons doc docs)
  from Cons.prems(1) obtain chs rest where
    chs: "sliding_window (fst (pop_content doc)) sz step = Inr chs" and
    rest: "chunk_documents docs sz step = Inr rest" and
    cs: "cs = map (\<lambda>ch. update ch (snd (pop_content doc))) chs @ rest"
    by (auto simp: split_beta split: sum.splits)
  from Cons.prems(2) cs consider "c \<in> set (map (\<lambda>ch. update ch (snd (pop_content doc))) chs)" | "c \<in> set rest"
    by auto
  then show ?case
  proof cases
    case 1
    then have "\<forall>k v. k \<noteq> ''content'' \<longrightarrow> doc k = Some v \<longrightarrow> c k = Some v"
      by (auto simp: update_field)
    then show ?thesis by auto
  next
    case 2
    with Cons.IH [OF rest] show ?thesis by auto
  qed
qed

lemma chunk_documents_increasing:
  "doc ''start'' = None \<Longrightarrow> chunk_documents [doc] sz step = Inr cs \<Longrightarrow>
     sorted_wrt (<) (map start_of cs)"
proof -
  assume ns: "doc ''start'' = None" and run: "chunk_documents [doc] sz step = Inr cs"
  from run obtain chs where
    chs: "sliding_window (fst (pop_content doc)) sz step = Inr chs" and
    cs: "cs = map (\<lambda>ch. update ch (snd (pop_content doc))) chs"
    by (auto simp: split_beta split: sum.splits)
  from chs obtain n where "chs = sw_loop (fst (pop_content doc)) n sz step 0"
    by (auto simp: sliding_window_def split: if_splits sum.splits)
  then have "sorted_wrt (<) (map start_of chs)" by (simp add: sw_loop_sorted)
  moreover have "map start_of cs = map start_of chs"
    unfolding cs using ns by (simp add: update_keeps_start)
  ultimately show ?thesis by simp
qed

end
